theory Spec2Isabelle
  imports Complex_Main
begin

section \<open>Measurement error mitigation: the notebook's linear algebra\<close>

text \<open>
  The repository is one notebook, \<^verbatim>\<open>measurement-error-mitigation.ipynb\<close>. Its own
  arithmetic is in three code cells:
  \<^verbatim>\<open>
  M = [[0.9808,0.0107,0.0095,0.0001],
      [0.0095,0.9788,0.0001,0.0107],
      [0.0096,0.0002,0.9814,0.0087],
      [0.0001,0.0103,0.0090,0.9805]]
  Cideal = [[5000], [0], [0], [5000]]
  Cnoisy = np.dot(M, Cideal)
  Minv = la.inv(M)
  Cmitigated = np.dot(Minv, Cnoisy)
  \<close>
  Everything else is a call into Qiskit. The decimal literals are read as the exact
  rationals they denote, and \<^verbatim>\<open>np.dot\<close> and \<^verbatim>\<open>la.inv\<close> compute in exact rational
  arithmetic: the rounding of IEEE doubles inside NumPy and LAPACK is not part of the
  model. Matrices are lists of rows, as the Python lists are; a column vector is a
  matrix with one entry per row.
\<close>

subsection \<open>Errors\<close>

text \<open>
  The exceptions the notebook's statements can raise: NumPy's and SciPy's
  \<^verbatim>\<open>ValueError\<close> (operands whose shapes do not fit, a matrix that is not square),
  SciPy's \<^verbatim>\<open>LinAlgError\<close> (singular matrix) and Python's \<^verbatim>\<open>NameError\<close>.
\<close>

datatype py_error = ValueError | LinAlgError | NameError string

subsection \<open>Arrays and \<^verbatim>\<open>np.dot\<close>\<close>

type_synonym matrix = "rat list list"

text \<open>
  The shape of a two-dimensional array: rows and columns. A ragged or empty list of
  rows has none.
\<close>

definition shape :: "matrix \<Rightarrow> (nat \<times> nat) option" where
  "shape a = (case a of
       [] \<Rightarrow> None
     | r # rs \<Rightarrow> if list_all (\<lambda>q. length q = length r) rs
                then Some (length a, length r) else None)"

definition col :: "matrix \<Rightarrow> nat \<Rightarrow> rat list" where
  "col b j = map (\<lambda>r. r ! j) b"

definition inner :: "rat list \<Rightarrow> rat list \<Rightarrow> rat" where
  "inner u v = sum_list (map2 (*) u v)"

text \<open>
  \<^verbatim>\<open>np.dot(a, b)\<close> on two-dimensional operands is the matrix product; it raises
  \<^verbatim>\<open>ValueError\<close> (shapes not aligned) unless the columns of \<open>a\<close> are as many as the
  rows of \<open>b\<close>. It looks at no entry's sign.
\<close>

definition dot :: "matrix \<Rightarrow> matrix \<Rightarrow> py_error + matrix" where
  "dot a b = (case (shape a, shape b) of
       (Some (n, k), Some (k', m)) \<Rightarrow>
         if k = k' then Inr (map (\<lambda>r. map (\<lambda>j. inner r (col b j)) [0..<m]) a)
         else Inl ValueError
     | _ \<Rightarrow> Inl ValueError)"

subsection \<open>\<^verbatim>\<open>la.inv\<close>\<close>

definition unit_row :: "nat \<Rightarrow> nat \<Rightarrow> rat list" where
  "unit_row n i = map (\<lambda>j. if j = i then 1 else 0) [0..<n]"

definition identity :: "nat \<Rightarrow> matrix" where
  "identity n = map (unit_row n) [0..<n]"

text \<open>
  \<^verbatim>\<open>scipy.linalg.inv\<close> factorises with partial pivoting and raises \<^verbatim>\<open>LinAlgError\<close>
  when a pivot is zero. The model is Gauss-Jordan elimination on the matrix
  augmented with the identity: in column \<open>k\<close> the pivot is the first entry of largest
  absolute value among the rows from \<open>k\<close> on.
\<close>

fun argmax_abs :: "matrix \<Rightarrow> nat \<Rightarrow> nat \<Rightarrow> nat list \<Rightarrow> nat" where
  "argmax_abs a k p [] = p"
| "argmax_abs a k p (i # is) =
     argmax_abs a k (if \<bar>a ! p ! k\<bar> < \<bar>a ! i ! k\<bar> then i else p) is"

definition pivot_row :: "nat \<Rightarrow> matrix \<Rightarrow> nat" where
  "pivot_row k a = argmax_abs a k k [Suc k..<length a]"

definition eliminate :: "nat \<Rightarrow> matrix \<Rightarrow> matrix" where
  "eliminate k a =
     (let r = map (\<lambda>x. x / (a ! k ! k)) (a ! k)
      in map (\<lambda>i. if i = k then r else map2 (\<lambda>x y. x - (a ! i ! k) * y) (a ! i) r)
           [0..<length a])"

definition gj_step :: "nat \<Rightarrow> matrix \<Rightarrow> py_error + matrix" where
  "gj_step k a =
     (let p = pivot_row k a in
      if a ! p ! k = 0 then Inl LinAlgError
      else Inr (eliminate k (a[k := a ! p, p := a ! k])))"

fun gj_loop :: "nat list \<Rightarrow> matrix \<Rightarrow> py_error + matrix" where
  "gj_loop [] a = Inr a"
| "gj_loop (k # ks) a =
     (case gj_step k a of Inl e \<Rightarrow> Inl e | Inr a' \<Rightarrow> gj_loop ks a')"

definition inv_la :: "matrix \<Rightarrow> py_error + matrix" where
  "inv_la a = (case shape a of
       None \<Rightarrow> Inl ValueError
     | Some (n, k) \<Rightarrow>
         if n \<noteq> k then Inl ValueError
         else (case gj_loop [0..<n] (map2 (@) a (identity n)) of
                 Inl e \<Rightarrow> Inl e
               | Inr r \<Rightarrow> Inr (map (drop n) r)))"

subsection \<open>The notebook's values\<close>

definition M :: matrix where
  "M = [[0.9808, 0.0107, 0.0095, 0.0001],
        [0.0095, 0.9788, 0.0001, 0.0107],
        [0.0096, 0.0002, 0.9814, 0.0087],
        [0.0001, 0.0103, 0.0090, 0.9805]]"



definition Minv :: "py_error + matrix" where
  "Minv = inv_la M"

text \<open>
  The correction of the notebook, \<^verbatim>\<open>np.dot(la.inv(m), c)\<close>, as a function of the
  calibration matrix and the noisy column vector. The product is returned as it is:
  the notebook rounds and clamps nothing (that counts should be rounded is said in
  its prose only).
\<close>

definition mitigate :: "matrix \<Rightarrow> matrix \<Rightarrow> py_error + matrix" where
  "mitigate m c = (case inv_la m of Inl e \<Rightarrow> Inl e | Inr mi \<Rightarrow> dot mi c)"




subsection \<open>The matrices of the round-trip law\<close>






section \<open>The calibration matrix\<close>

text \<open>
  The notebook obtains its calibration matrix from Qiskit
  (\<^verbatim>\<open>CompleteMeasFitter(cal_results, state_labels).cal_matrix\<close>), whose code is not in
  the repository. Its prose says what the matrix is: the counts dictionary of each
  basis state, normalised to sum to one, is a column. The calibration data it quotes:
  \<^verbatim>\<open>
  00 becomes {'10': 96, '11': 1, '01': 95, '00': 9808}
  01 becomes {'10': 2, '11': 103, '01': 9788, '00': 107}
  10 becomes {'10': 9814, '11': 90, '01': 1, '00': 95}
  11 becomes {'10': 87, '11': 9805, '01': 107, '00': 1}
  \<close>
\<close>

type_synonym counts = "string \<rightharpoonup> nat"

definition cal_data :: "counts list" where
  "cal_data =
    [[''10'' \<mapsto> 96, ''11'' \<mapsto> 1, ''01'' \<mapsto> 95, ''00'' \<mapsto> 9808],
     [''10'' \<mapsto> 2, ''11'' \<mapsto> 103, ''01'' \<mapsto> 9788, ''00'' \<mapsto> 107],
     [''10'' \<mapsto> 9814, ''11'' \<mapsto> 90, ''01'' \<mapsto> 1, ''00'' \<mapsto> 95],
     [''10'' \<mapsto> 87, ''11'' \<mapsto> 9805, ''01'' \<mapsto> 107, ''00'' \<mapsto> 1]]"

text \<open>The label of outcome \<open>j\<close> on \<open>n\<close> qubits: \<open>j\<close> in binary, \<open>n\<close> digits.\<close>

fun label :: "nat \<Rightarrow> nat \<Rightarrow> string" where
  "label 0 j = []"
| "label (Suc n) j = label n (j div 2) @ [if even j then CHR ''0'' else CHR ''1'']"

text \<open>
  A counts dictionary as a dense vector over the \<open>2 ^ n\<close> outcomes; a label the
  dictionary does not hold counts zero (the notebook prints
  \<^verbatim>\<open>{'00': 93, '10': 9809, '11': 98}\<close>).
\<close>

definition dense :: "nat \<Rightarrow> counts \<Rightarrow> nat list" where
  "dense n d = map (\<lambda>i. case d (label n i) of None \<Rightarrow> 0 | Some c \<Rightarrow> c) [0..<2 ^ n]"

definition shot_total :: "nat \<Rightarrow> counts \<Rightarrow> nat" where
  "shot_total n d = sum_list (dense n d)"

datatype spec_error = InvalidInput | DimensionMismatch | SingularMatrix

text \<open>
  Modelled from the spec: the Calibration-Matrix Builder (section 4.1), which in the
  notebook is Qiskit's \<^verbatim>\<open>CompleteMeasFitter\<close>. Its input is one counts dictionary per
  basis state, in the order of the basis states; column \<open>j\<close> of the matrix is the dense
  vector of dictionary \<open>j\<close> divided by that dictionary's own shot total. It fails with
  \<open>InvalidInput\<close> when fewer than \<open>2 ^ n\<close> dictionaries are supplied or when one of
  them has shot total zero.
\<close>

definition cal_matrix :: "nat \<Rightarrow> counts list \<Rightarrow> spec_error + matrix" where
  "cal_matrix n ds =
     (if length ds < 2 ^ n \<or> list_ex (\<lambda>d. shot_total n d = 0) ds then Inl InvalidInput
      else Inr (map (\<lambda>i. map (\<lambda>j. of_nat (dense n (ds ! j) ! i) / of_nat (shot_total n (ds ! j)))
                            [0..<2 ^ n])
                  [0..<2 ^ n]))"


section \<open>The notebook's names\<close>

text \<open>
  What a top-level statement does to the notebook's global names: the names it reads,
  each once and in the order Python evaluates them, and the names it binds once it
  has run. An import binds the names it imports and a \<^verbatim>\<open>def\<close> its function; a
  call of \<^verbatim>\<open>get_noise\<close> reads the global names of that function's body. A
  \<^verbatim>\<open>for\<close> binds its variable and is followed by the statements of its body, listed
  once (every loop of the notebook runs its body); the statement of an \<^verbatim>\<open>if\<close> is
  listed after its condition.
\<close>

datatype stmt = Stmt (reads: "string list") (binds: "string list")

text \<open>
  A statement raises \<^verbatim>\<open>NameError\<close> at the first name it reads that is not bound;
  a cell stops at the first statement that raises, and a run of the cells in order
  stops at the first cell that does, with that cell's index.
\<close>

fun exec_stmt :: "string list \<Rightarrow> stmt \<Rightarrow> py_error + string list" where
  "exec_stmt env (Stmt rs bs) =
     (case find (\<lambda>x. x \<notin> set env) rs of
        Some x \<Rightarrow> Inl (NameError x)
      | None \<Rightarrow> Inr (bs @ env))"

fun exec_cell :: "string list \<Rightarrow> stmt list \<Rightarrow> py_error + string list" where
  "exec_cell env [] = Inr env"
| "exec_cell env (s # ss) =
     (case exec_stmt env s of Inl e \<Rightarrow> Inl e | Inr env' \<Rightarrow> exec_cell env' ss)"

fun run_cells :: "string list \<Rightarrow> (nat \<times> stmt list) list \<Rightarrow> (nat \<times> py_error) + string list" where
  "run_cells env [] = Inr env"
| "run_cells env ((i, ss) # cs) =
     (case exec_cell env ss of Inl e \<Rightarrow> Inl (i, e) | Inr env' \<Rightarrow> run_cells env' cs)"

text \<open>The only built-in name the notebook reads.\<close>

definition builtins :: "string list" where
  "builtins = [''print'']"

text \<open>The circuit of the Bell pair, built the same way in three cells.\<close>

definition bell_circuit :: "stmt list" where
  "bell_circuit =
    [Stmt [''QuantumCircuit''] [''qc''],
     Stmt [''qc''] [],
     Stmt [''qc''] [],
     Stmt [''qc''] []]"

definition run_circuit :: "string \<Rightarrow> string \<Rightarrow> stmt list" where
  "run_circuit circuits result =
    [Stmt [''transpile'', circuits, ''qasm_sim''] [''t_qc''],
     Stmt [''assemble'', ''t_qc''] [''qobj''],
     Stmt [''qasm_sim'', ''qobj'', ''noise_model''] [result]]"

definition fit :: "stmt list" where
  "fit =
    [Stmt [''CompleteMeasFitter'', ''cal_results'', ''state_labels''] [''meas_fitter''],
     Stmt [''print'', ''meas_fitter''] []]"

definition set_noise :: "stmt list" where
  "set_noise = [Stmt [''get_noise'', ''pauli_error'', ''NoiseModel''] [''noise_model'']]"

text \<open>The last two statements of the notebook that matter: the cell that plots.\<close>

definition plot_cell :: "stmt list" where
  "plot_cell =
    [Stmt [] [''plot_histogram''],
     Stmt [''plot_histogram'', ''noisy_counts'', ''mitigated_counts''] []]"

text \<open>The code cells of the notebook, each with its index among all cells.\<close>

definition notebook :: "(nat \<times> stmt list) list" where
  "notebook =
    [(1, [Stmt [] [''QuantumCircuit'', ''QuantumRegister'', ''Aer'', ''transpile'', ''assemble'']]),
     (3, [Stmt [] [''NoiseModel''],
          Stmt [] [''pauli_error'', ''depolarizing_error''],
          Stmt [] [''get_noise'']]),
     (5, set_noise),
     (7, [Stmt [''Aer''] [''qasm_sim''],
          Stmt [] [''state''],
          Stmt [''QuantumCircuit''] [''qc''],
          Stmt [''state''] [],
          Stmt [''qc''] [],
          Stmt [''state''] [],
          Stmt [''qc''] [],
          Stmt [''qc''] []]
         @ run_circuit ''qc'' ''counts''
         @ [Stmt [''print'', ''state'', ''counts''] []]),
     (9, bell_circuit @ run_circuit ''qc'' ''counts'' @ [Stmt [''print'', ''counts''] []]),
     (11, [Stmt [] [''np''],
           Stmt [] [''M''],
           Stmt [] [''Cideal''],
           Stmt [''np'', ''M'', ''Cideal''] [''Cnoisy''],
           Stmt [''print'', ''Cnoisy''] []]),
     (13, [Stmt [] [''la''],
           Stmt [] [''M''],
           Stmt [''la'', ''M''] [''Minv''],
           Stmt [''print'', ''Minv''] []]),
     (15, [Stmt [''np'', ''Minv'', ''Cnoisy''] [''Cmitigated''],
           Stmt [''print'', ''Cmitigated''] []]),
     (18, [Stmt [] [''complete_meas_cal'', ''CompleteMeasFitter'']]),
     (20, [Stmt [''QuantumRegister''] [''qr''],
           Stmt [''complete_meas_cal'', ''qr''] [''meas_calibs'', ''state_labels'']]),
     (22, [Stmt [''meas_calibs''] [''circuit''],
           Stmt [''print'', ''circuit''] [],
           Stmt [''print'', ''circuit''] [],
           Stmt [''print''] []]),
     (24, run_circuit ''meas_calibs'' ''cal_results''),
     (26, fit),
     (28, set_noise),
     (30, run_circuit ''meas_calibs'' ''cal_results'' @ fit),
     (32, bell_circuit @ run_circuit ''qc'' ''results'' @ [Stmt [''print'', ''results''] []]),
     (34, [Stmt [''meas_fitter''] [''meas_filter''],
           Stmt [''meas_filter'', ''results''] [''mitigated_results''],
           Stmt [''mitigated_results''] [''mitigated_counts'']]),
     (36, plot_cell),
     (38, [Stmt [] [''qiskit''], Stmt [''qiskit''] []])]"

text \<open>Every name some statement of the notebook binds.\<close>

definition bound_names :: "string list" where
  "bound_names = concat (map binds (concat (map snd notebook)))"

section \<open>Shapes\<close>

lemma shape_SomeD:
  assumes "shape a = Some (n, k)"
  shows "length a = n" and "a \<noteq> []" and "\<And>r. r \<in> set a \<Longrightarrow> length r = k"
  using assms by (auto simp: shape_def list_all_iff split: list.splits if_splits)

lemma shape_SomeI:
  assumes "a \<noteq> []" and "\<And>r. r \<in> set a \<Longrightarrow> length r = k"
  shows "shape a = Some (length a, k)"
  using assms by (cases a) (auto simp: shape_def list_all_iff)

lemma dot_mismatch:
  "shape a = Some (n, k) \<Longrightarrow> shape b = Some (k', m) \<Longrightarrow> k \<noteq> k' \<Longrightarrow> dot a b = Inl ValueError"
  by (simp add: dot_def)

lemma dot_match:
  "shape a = Some (n, k) \<Longrightarrow> shape b = Some (k, m) \<Longrightarrow>
   dot a b = Inr (map (\<lambda>r. map (\<lambda>j. inner r (col b j)) [0..<m]) a)"
  by (simp add: dot_def)

lemma argmax_abs_in: "argmax_abs a k p is \<in> insert p (set is)"
  by (induction "is" arbitrary: p) (auto split: if_splits)

lemma pivot_row_less: "k < length a \<Longrightarrow> pivot_row k a < length a"
  using argmax_abs_in [of a k k "[Suc k..<length a]"] by (auto simp: pivot_row_def)

lemma length_eliminate: "length (eliminate k a) = length a"
  by (simp add: eliminate_def Let_def)

lemma rows_eliminate:
  assumes "k < length a" and "\<And>r. r \<in> set a \<Longrightarrow> length r = w" and "r \<in> set (eliminate k a)"
  shows "length r = w"
proof -
  have nth: "\<And>i. i < length a \<Longrightarrow> length (a ! i) = w"
    using assms(2) by simp
  from assms(3) obtain i where "i < length a"
    and "r = (if i = k then map (\<lambda>x. x / (a ! k ! k)) (a ! k)
              else map2 (\<lambda>x y. x - (a ! i ! k) * y) (a ! i) (map (\<lambda>x. x / (a ! k ! k)) (a ! k)))"
    by (auto simp: eliminate_def Let_def)
  then show ?thesis
    using nth assms(1) by (auto split: if_splits)
qed

lemma gj_step_rows:
  assumes "gj_step k a = Inr a'" and "k < length a" and "\<And>r. r \<in> set a \<Longrightarrow> length r = w"
  shows "length a' = length a \<and> (\<forall>r\<in>set a'. length r = w)"
proof -
  let ?p = "pivot_row k a"
  let ?b = "a[k := a ! ?p, ?p := a ! k]"
  have p: "?p < length a" using assms(2) by (rule pivot_row_less)
  have a': "a' = eliminate k ?b"
    using assms(1) by (auto simp: gj_step_def Let_def split: if_splits)
  have "\<And>r. r \<in> set ?b \<Longrightarrow> length r = w"
  proof -
    fix r assume "r \<in> set ?b"
    then have "r \<in> insert (a ! k) (set (a[k := a ! ?p]))"
      using set_update_subset_insert [of "a[k := a ! ?p]" ?p "a ! k"] by blast
    then have "r \<in> insert (a ! k) (insert (a ! ?p) (set a))"
      using set_update_subset_insert [of a k "a ! ?p"] by blast
    then show "length r = w" using assms(2,3) p by auto
  qed
  moreover have "k < length ?b" using assms(2) by simp
  ultimately show ?thesis
    unfolding a' using rows_eliminate [of k ?b w] by (auto simp: length_eliminate)
qed

lemma gj_loop_rows:
  assumes "gj_loop ks a = Inr a'" and "\<And>k. k \<in> set ks \<Longrightarrow> k < length a"
    and "\<And>r. r \<in> set a \<Longrightarrow> length r = w"
  shows "length a' = length a \<and> (\<forall>r\<in>set a'. length r = w)"
  using assms
proof (induction ks arbitrary: a)
  case Nil
  then show ?case by simp
next
  case (Cons k ks)
  from Cons.prems(1) obtain b where b: "gj_step k a = Inr b" and l: "gj_loop ks b = Inr a'"
    by (auto split: sum.splits)
  have s: "length b = length a \<and> (\<forall>r\<in>set b. length r = w)"
    using gj_step_rows [OF b] Cons.prems(2,3) by simp
  then have "length a' = length b \<and> (\<forall>r\<in>set a'. length r = w)"
    using Cons.IH [OF l] Cons.prems(2) by simp
  with s show ?case by simp
qed

lemma length_unit_row: "length (unit_row n i) = n"
  by (simp add: unit_row_def)

lemma length_identity: "length (identity n) = n"
  by (simp add: identity_def)

lemma inv_la_shape:
  assumes "inv_la a = Inr mi"
  shows "shape mi = Some (length a, length a)"
proof -
  from assms obtain n where sh: "shape a = Some (n, n)"
    by (auto simp: inv_la_def split: option.splits if_splits)
  let ?aug = "map2 (@) a (identity n)"
  from assms sh obtain r where r: "gj_loop [0..<n] ?aug = Inr r" and mi: "mi = map (drop n) r"
    by (auto simp: inv_la_def split: sum.splits)
  have n: "length a = n" "a \<noteq> []" and rows: "\<And>q. q \<in> set a \<Longrightarrow> length q = n"
    using shape_SomeD [OF sh] by auto
  have la: "length ?aug = n" by (simp add: n length_identity)
  have ks: "\<And>k. k \<in> set [0..<n] \<Longrightarrow> k < length ?aug"
    using la by simp
  have aug: "\<And>q. q \<in> set ?aug \<Longrightarrow> length q = n + n"
  proof -
    fix q assume "q \<in> set ?aug"
    then obtain x y where "q = x @ y" "x \<in> set a" "y \<in> set (identity n)"
      by (auto dest: set_zip_leftD set_zip_rightD)
    then show "length q = n + n"
      using rows by (auto simp: identity_def length_unit_row)
  qed
  have "length r = length ?aug \<and> (\<forall>q\<in>set r. length q = n + n)"
    by (rule gj_loop_rows [OF r ks aug])
  then have "mi \<noteq> []" and "\<And>q. q \<in> set mi \<Longrightarrow> length q = n" and "length mi = n"
    using la n by (auto simp: mi)
  then show ?thesis
    using shape_SomeI [of mi n] n by simp
qed

section \<open>The identity matrix\<close>

lemma nth_unit_row: "j < n \<Longrightarrow> unit_row n i ! j = (if j = i then 1 else 0)"
  by (simp add: unit_row_def)

lemma inner_unit_row:
  assumes "i < n" and "length v = n"
  shows "inner (unit_row n i) v = v ! i"
proof -
  have "inner (unit_row n i) v = (\<Sum>j = 0..<n. (if j = i then 1 else 0) * v ! j)"
    unfolding inner_def
    by (subst sum_list_sum_nth) (simp add: assms length_unit_row nth_unit_row)
  also have "\<dots> = (\<Sum>j = 0..<n. if j = i then v ! j else 0)"
    by (rule sum.cong) simp_all
  also have "\<dots> = v ! i"
    using assms(1) by simp
  finally show ?thesis .
qed








section \<open>What \<^verbatim>\<open>la.inv\<close> returns\<close>

text \<open>
  The elimination keeps two things true of every row of the augmented matrix: its right
  half, multiplied by the matrix to invert, is its left half; and a vector the matrix
  sends to zero is sent to zero by its left half. Once the elimination has run, the left
  halves are the rows of the identity. So a result of \<open>inv_la\<close> is a left inverse, and
  a matrix that sends some non-zero vector to zero has no result but \<^verbatim>\<open>LinAlgError\<close>.
\<close>

lemma inner_Nil [simp]: "inner [] v = 0" "inner u [] = 0"
  by (simp_all add: inner_def)

lemma inner_Cons [simp]: "inner (x # u) (y # v) = x * y + inner u v"
  by (simp add: inner_def)

lemma inner_scale: "inner (map (\<lambda>x. x / p) u) v = inner u v / p"
proof (induction u arbitrary: v)
  case Nil
  then show ?case by simp
next
  case (Cons x u)
  then show ?case by (cases v) (simp_all add: add_divide_distrib)
qed

lemma inner_sub:
  "length u = length w \<Longrightarrow>
   inner (map2 (\<lambda>x y. x - c * y) u w) v = inner u v - c * inner w v"
proof (induction u w arbitrary: v rule: list_induct2)
  case Nil
  then show ?case by simp
next
  case (Cons x u y w)
  then show ?case by (cases v) (simp_all add: algebra_simps)
qed

lemma gj_step_length: "gj_step k a = Inr a' \<Longrightarrow> length a' = length a"
  by (auto simp: gj_step_def Let_def length_eliminate split: if_splits)

lemma gj_step_error: "gj_step k a = Inl e \<Longrightarrow> e = LinAlgError"
  by (auto simp: gj_step_def Let_def split: if_splits)

lemma gj_loop_error: "gj_loop ks a = Inl e \<Longrightarrow> e = LinAlgError"
  by (induction ks arbitrary: a) (auto split: sum.splits dest: gj_step_error)

lemma set_swap_rows:
  assumes "k < length a" and "p < length a"
  shows "set (a[k := a ! p, p := a ! k]) \<subseteq> set a"
proof -
  have "set (a[k := a ! p, p := a ! k]) \<subseteq> insert (a ! k) (set (a[k := a ! p]))"
    by (rule set_update_subset_insert)
  also have "\<dots> \<subseteq> insert (a ! k) (insert (a ! p) (set a))"
    using set_update_subset_insert [of a k "a ! p"] by blast
  also have "\<dots> \<subseteq> set a"
    using assms by simp
  finally show ?thesis .
qed

lemma gj_step_preserves:
  assumes step: "gj_step k a = Inr a'" and k: "k < length a"
    and rows: "\<And>r. r \<in> set a \<Longrightarrow> P r"
    and scale: "\<And>r p. P r \<Longrightarrow> P (map (\<lambda>x. x / p) r)"
    and sub: "\<And>r s c. P r \<Longrightarrow> P s \<Longrightarrow> P (map2 (\<lambda>x y. x - c * y) r s)"
    and r: "r \<in> set a'"
  shows "P r"
proof -
  let ?p = "pivot_row k a"
  let ?b = "a[k := a ! ?p, ?p := a ! k]"
  have p: "?p < length a" using k by (rule pivot_row_less)
  have a': "a' = eliminate k ?b"
    using step by (auto simp: gj_step_def Let_def split: if_splits)
  have b: "\<And>i. i < length a \<Longrightarrow> P (?b ! i)"
  proof -
    fix i assume "i < length a"
    then have "?b ! i \<in> set ?b" by simp
    then have "?b ! i \<in> set a" using set_swap_rows [OF k p] by blast
    then show "P (?b ! i)" by (rule rows)
  qed
  from r obtain i where i: "i < length a"
    and ri: "r = (if i = k then map (\<lambda>x. x / (?b ! k ! k)) (?b ! k)
              else map2 (\<lambda>x y. x - (?b ! i ! k) * y) (?b ! i)
                     (map (\<lambda>x. x / (?b ! k ! k)) (?b ! k)))"
    unfolding a' by (auto simp: eliminate_def Let_def)
  show ?thesis
    unfolding ri using b [OF i] b [OF k] by (auto intro: scale sub)
qed

lemma gj_loop_preserves:
  assumes "gj_loop ks a = Inr a'" and "\<And>k. k \<in> set ks \<Longrightarrow> k < length a"
    and "\<And>r. r \<in> set a \<Longrightarrow> P r"
    and scale: "\<And>r p. P r \<Longrightarrow> P (map (\<lambda>x. x / p) r)"
    and sub: "\<And>r s c. P r \<Longrightarrow> P s \<Longrightarrow> P (map2 (\<lambda>x y. x - c * y) r s)"
  shows "\<forall>r\<in>set a'. P r"
  using assms(1-3)
proof (induction ks arbitrary: a)
  case Nil
  then show ?case by simp
next
  case (Cons k ks)
  from Cons.prems(1) obtain b where b: "gj_step k a = Inr b" and l: "gj_loop ks b = Inr a'"
    by (auto split: sum.splits)
  have k: "k < length a" using Cons.prems(2) by simp
  have "\<And>r. r \<in> set b \<Longrightarrow> P r"
    using gj_step_preserves [OF b k Cons.prems(3) scale sub] by blast
  moreover have "\<And>j. j \<in> set ks \<Longrightarrow> j < length b"
    using Cons.prems(2) gj_step_length [OF b] by simp
  ultimately show ?case
    using Cons.IH [OF l] by blast
qed


lemma argmax_abs_ge: "k \<le> p \<Longrightarrow> (\<And>i. i \<in> set is \<Longrightarrow> k \<le> i) \<Longrightarrow> k \<le> argmax_abs a c p is"
  by (induction "is" arbitrary: p) auto

lemma pivot_row_ge: "k \<le> pivot_row k a"
  unfolding pivot_row_def by (rule argmax_abs_ge) simp_all

lemma gj_step_unit_columns:
  assumes step: "gj_step k a = Inr a'" and k: "k < n" and len: "length a = n"
    and rows: "\<And>i. i < n \<Longrightarrow> length (a ! i) = n + n"
    and unit: "\<And>i j. i < n \<Longrightarrow> j < k \<Longrightarrow> a ! i ! j = (if i = j then 1 else 0)"
    and i: "i < n" and j: "j < Suc k"
  shows "a' ! i ! j = (if i = j then 1 else 0)"
proof -
  define p where "p = pivot_row k a"
  define b where "b = a[k := a ! p, p := a ! k]"
  have p: "p < n" "k \<le> p"
    using pivot_row_less [of k a] pivot_row_ge [of k a] k len by (simp_all add: p_def)
  have piv: "a ! p ! k \<noteq> 0" and a': "a' = eliminate k b"
    using step by (auto simp: gj_step_def Let_def p_def b_def split: if_splits)
  have lb: "length b = n" by (simp add: b_def len)
  have bk: "b ! k = a ! p"
    using k p len by (cases "p = k") (simp_all add: b_def)
  have bp: "b ! p = a ! k"
    using p len by (simp add: b_def)
  have bo: "\<And>q. q < n \<Longrightarrow> q \<noteq> k \<Longrightarrow> q \<noteq> p \<Longrightarrow> b ! q = a ! q"
    using len by (simp add: b_def)
  have brows: "length (b ! q) = n + n" if "q < n" for q
    using that rows p k bk bp bo by (cases "q = k"; cases "q = p") auto
  have bunit: "b ! q ! c = (if q = c then 1 else 0)" if "q < n" and "c < k" for q c
  proof (cases "q = k")
    case True
    then show ?thesis using that p unit [of p c] bk by auto
  next
    case qk: False
    show ?thesis
    proof (cases "q = p")
      case True
      then show ?thesis using that p k unit [of k c] bp by auto
    next
      case False
      then show ?thesis using that qk unit [of q c] bo by auto
    qed
  qed
  have bkk: "b ! k ! k \<noteq> 0" using piv bk by simp
  define r where "r = map (\<lambda>x. x / (b ! k ! k)) (b ! k)"
  have lr: "length r = n + n" using brows [OF k] by (simp add: r_def)
  have rj: "r ! j = (if k = j then 1 else 0)"
  proof (cases "j = k")
    case True
    then show ?thesis using bkk brows [OF k] k by (simp add: r_def)
  next
    case False
    then have "j < k" using j by simp
    then show ?thesis using bunit [OF k] brows [OF k] k False by (simp add: r_def)
  qed
  have a'i: "a' ! i = (if i = k then r else map2 (\<lambda>x y. x - (b ! i ! k) * y) (b ! i) r)"
    using i by (simp add: a' eliminate_def Let_def lb r_def)
  show ?thesis
  proof (cases "i = k")
    case True
    then show ?thesis using a'i rj by simp
  next
    case False
    have jn: "j < n + n" using j k by simp
    have "a' ! i ! j = b ! i ! j - (b ! i ! k) * r ! j"
      using False a'i jn brows [OF i] lr by simp
    also have "\<dots> = (if i = j then 1 else 0)"
    proof (cases "j = k")
      case True
      then show ?thesis using rj False by simp
    next
      case jk: False
      then have "j < k" using j by simp
      then show ?thesis using rj jk bunit [OF i] by simp
    qed
    finally show ?thesis .
  qed
qed


lemma gj_loop_unit_columns:
  assumes "gj_loop [k..<n] a = Inr a'" and "k \<le> n" and "length a = n"
    and "\<And>i. i < n \<Longrightarrow> length (a ! i) = n + n"
    and "\<And>i j. i < n \<Longrightarrow> j < k \<Longrightarrow> a ! i ! j = (if i = j then 1 else 0)"
  shows "\<forall>i<n. \<forall>j<n. a' ! i ! j = (if i = j then 1 else 0)"
  using assms
proof (induction "n - k" arbitrary: k a)
  case 0
  then have "k = n" by simp
  with "0.prems" show ?case by simp
next
  case (Suc d)
  then have k: "k < n" by simp
  then have upt: "[k..<n] = k # [Suc k..<n]" by (rule upt_conv_Cons)
  from Suc.prems(1) obtain b where b: "gj_step k a = Inr b" and l: "gj_loop [Suc k..<n] b = Inr a'"
    unfolding upt by (auto split: sum.splits)
  have ka: "k < length a" using k Suc.prems(3) by simp
  have ra: "\<And>r. r \<in> set a \<Longrightarrow> length r = n + n"
    using Suc.prems(3,4) by (auto simp: in_set_conv_nth)
  have sb: "length b = length a \<and> (\<forall>r\<in>set b. length r = n + n)"
    using b ka ra by (rule gj_step_rows)
  then have lb: "length b = n" and rb: "\<And>i. i < n \<Longrightarrow> length (b ! i) = n + n"
    using Suc.prems(3) by simp_all
  have ub: "\<And>i j. i < n \<Longrightarrow> j < Suc k \<Longrightarrow> b ! i ! j = (if i = j then 1 else 0)"
    using b k Suc.prems(3,4,5) by (rule gj_step_unit_columns)
  have d: "d = n - Suc k" using Suc.hyps(2) by simp
  have sk: "Suc k \<le> n" using k by simp
  show ?case
    using d l sk lb rb ub by (rule Suc.hyps(1))
qed

lemma rows_augmented:
  assumes "shape a = Some (n, n)"
  shows "length (map2 (@) a (identity n)) = n"
    and "\<And>i. i < n \<Longrightarrow> map2 (@) a (identity n) ! i = a ! i @ unit_row n i"
    and "\<And>i. i < n \<Longrightarrow> length (a ! i) = n"
proof -
  have n: "length a = n" and rows: "\<And>r. r \<in> set a \<Longrightarrow> length r = n"
    using shape_SomeD [OF assms] by auto
  show "length (map2 (@) a (identity n)) = n"
    by (simp add: n length_identity)
  show "\<And>i. i < n \<Longrightarrow> map2 (@) a (identity n) ! i = a ! i @ unit_row n i"
    by (simp add: n identity_def)
  show "\<And>i. i < n \<Longrightarrow> length (a ! i) = n"
    using n rows by simp
qed

lemma take_unit_rows:
  assumes "length r = n + n" and "\<And>j. j < n \<Longrightarrow> r ! j = (if i = j then 1 else 0)"
  shows "take n r = unit_row n i"
  by (rule nth_equalityI) (use assms in \<open>auto simp: length_unit_row nth_unit_row\<close>)


lemma gj_loop_left_identity:
  assumes sh: "shape a = Some (n, n)"
    and loop: "gj_loop [0..<n] (map2 (@) a (identity n)) = Inr r"
  shows "length r = n" and "\<And>i. i < n \<Longrightarrow> length (r ! i) = n + n"
    and "\<And>i. i < n \<Longrightarrow> take n (r ! i) = unit_row n i"
proof -
  let ?aug = "map2 (@) a (identity n)"
  note aug = rows_augmented [OF sh]
  have ks: "\<And>k. k \<in> set [0..<n] \<Longrightarrow> k < length ?aug"
    using aug(1) by simp
  have rows: "\<And>q. q \<in> set ?aug \<Longrightarrow> length q = n + n"
    using aug by (auto simp: in_set_conv_nth length_unit_row)
  have "length r = length ?aug \<and> (\<forall>q\<in>set r. length q = n + n)"
    by (rule gj_loop_rows [OF loop ks rows])
  then show len: "length r = n" and rlen: "\<And>i. i < n \<Longrightarrow> length (r ! i) = n + n"
    using aug(1) by simp_all
  have "\<forall>i<n. \<forall>j<n. r ! i ! j = (if i = j then 1 else 0)"
    using loop _ aug(1)
  proof (rule gj_loop_unit_columns)
    show "\<And>i. i < n \<Longrightarrow> length (?aug ! i) = n + n"
      using aug by (simp add: length_unit_row)
  qed simp_all
  then show "\<And>i. i < n \<Longrightarrow> take n (r ! i) = unit_row n i"
    using rlen by (intro take_unit_rows) simp_all
qed


theorem inv_la_singular:
  assumes sh: "shape a = Some (n, n)" and v: "length v = n"
    and ker: "\<And>q. q \<in> set a \<Longrightarrow> inner q v = 0" and nz: "\<exists>x\<in>set v. x \<noteq> 0"
  shows "inv_la a = Inl LinAlgError"
proof -
  let ?aug = "map2 (@) a (identity n)"
  note aug = rows_augmented [OF sh]
  have n: "length a = n" using shape_SomeD(1) [OF sh] .
  let ?P = "\<lambda>q. length q = n + n \<and> inner (take n q) v = 0"
  have "gj_loop [0..<n] ?aug \<noteq> Inr r" for r
  proof
    assume loop: "gj_loop [0..<n] ?aug = Inr r"
    have ks: "\<And>k. k \<in> set [0..<n] \<Longrightarrow> k < length ?aug"
      using aug(1) by simp
    have init: "\<And>q. q \<in> set ?aug \<Longrightarrow> ?P q"
    proof -
      fix q assume "q \<in> set ?aug"
      then obtain i where i: "i < n" and q: "q = a ! i @ unit_row n i"
        using aug(1,2) by (auto simp: in_set_conv_nth)
      have "a ! i \<in> set a" using i n by simp
      then show "?P q"
        using aug(3) [OF i] ker by (simp add: q length_unit_row)
    qed
    have scale: "\<And>q p. ?P q \<Longrightarrow> ?P (map (\<lambda>x. x / p) q)"
      by (simp add: take_map inner_scale)
    have sub: "\<And>q s c. ?P q \<Longrightarrow> ?P s \<Longrightarrow> ?P (map2 (\<lambda>x y. x - c * y) q s)"
      by (simp add: take_map take_zip inner_sub)
    have inv: "\<forall>q\<in>set r. ?P q"
      using loop ks init scale sub by (rule gj_loop_preserves)
    note fin = gj_loop_left_identity [OF sh loop]
    have "v ! i = 0" if i: "i < n" for i
    proof -
      have "r ! i \<in> set r" using i fin(1) by simp
      then have "inner (take n (r ! i)) v = 0" using inv by blast
      then show ?thesis
        using fin(3) [OF i] inner_unit_row [OF i v] by simp
    qed
    then have "\<forall>x\<in>set v. x = 0"
      using v by (auto simp: in_set_conv_nth)
    with nz show False by blast
  qed
  then obtain e where "gj_loop [0..<n] ?aug = Inl e"
    by (cases "gj_loop [0..<n] ?aug") auto
  moreover from this have "e = LinAlgError"
    by (rule gj_loop_error)
  ultimately show ?thesis
    by (simp add: inv_la_def sh)
qed

text \<open>
  Conversely, when the elimination finds no pivot in a column, the left half sends a
  non-zero vector to zero, and so does the matrix to invert: every step of the
  elimination can be undone.
\<close>

lemma inner_sum:
  assumes "length u = length v"
  shows "inner u v = (\<Sum>k = 0..<length u. u ! k * v ! k)"
  unfolding inner_def using assms by (simp add: sum_list_sum_nth)








text \<open>A square matrix with two equal columns is such a matrix.\<close>

lemma inv_la_repeated_column:
  assumes sh: "shape a = Some (n, n)" and i: "i < n" and j: "j < n" and ij: "i \<noteq> j"
    and rep: "col a i = col a j"
  shows "inv_la a = Inl LinAlgError"
proof -
  let ?v = "map (\<lambda>k. if k = i then 1 else if k = j then - 1 else 0 :: rat) [0..<n]"
  have la: "length a = n" and ra: "\<And>q. q \<in> set a \<Longrightarrow> length q = n"
    using shape_SomeD [OF sh] by auto
  have same: "q ! i = q ! j" if "q \<in> set a" for q
    using rep that by (auto simp: col_def)
  have ker: "inner q ?v = 0" if q: "q \<in> set a" for q
  proof -
    have "inner q ?v = (\<Sum>k = 0..<n. q ! k * ?v ! k)"
      using ra [OF q] by (simp add: inner_sum)
    also have "\<dots> = (\<Sum>k = 0..<n. (if k = i then q ! i else 0) - (if k = j then q ! j else 0))"
      using ij by (intro sum.cong refl) auto
    also have "\<dots> = q ! i - q ! j"
      using i j by (simp add: sum_subtractf)
    finally show ?thesis
      using same [OF q] by simp
  qed
  have "?v ! i \<noteq> 0" using i by simp
  then have nz: "\<exists>x\<in>set ?v. x \<noteq> 0"
    using i by (intro bexI [of _ "?v ! i"]) simp_all
  show ?thesis
    using sh _ ker nz by (rule inv_la_singular) simp
qed

section \<open>Diagonal dominance\<close>





section \<open>Column vectors and the round trip\<close>









section \<open>Normalised counts\<close>

subsection \<open>Labels\<close>



subsection \<open>The calibration matrix\<close>

lemma length_dense: "length (dense n d) = 2 ^ n"
  by (simp add: dense_def)

lemma dense_le_total: "i < 2 ^ n \<Longrightarrow> dense n d ! i \<le> shot_total n d"
  using member_le_sum_list [of "dense n d ! i" "dense n d"]
  by (simp add: shot_total_def length_dense)

lemma cal_matrix_Inr:
  assumes "2 ^ n \<le> length ds" and "\<And>d. d \<in> set ds \<Longrightarrow> 0 < shot_total n d"
  shows "cal_matrix n ds =
    Inr (map (\<lambda>i. map (\<lambda>j. of_nat (dense n (ds ! j) ! i) / of_nat (shot_total n (ds ! j)))
                    [0..<2 ^ n]) [0..<2 ^ n])"
proof -
  have "\<not> list_ex (\<lambda>d. shot_total n d = 0) ds"
    using assms(2) by (auto simp: list_ex_iff)
  then show ?thesis
    using assms(1) by (simp add: cal_matrix_def)
qed

lemma column_sum:
  fixes v :: "nat list"
  assumes "0 < sum_list v"
  shows "sum_list (map (\<lambda>i. (of_nat (v ! i) :: rat) / of_nat (sum_list v)) [0..<length v]) = 1"
proof -
  have "sum_list (map (\<lambda>i. (of_nat (v ! i) :: rat) / of_nat (sum_list v)) [0..<length v])
      = (\<Sum>i = 0..<length v. of_nat (v ! i) / of_nat (sum_list v))"
    by (simp add: sum_list_sum_nth)
  also have "\<dots> = (\<Sum>i = 0..<length v. of_nat (v ! i)) / of_nat (sum_list v)"
    by (simp add: sum_divide_distrib)
  also have "(\<Sum>i = 0..<length v. (of_nat (v ! i) :: rat)) = of_nat (sum_list v)"
    by (simp add: sum_list_sum_nth)
  finally have "sum_list (map (\<lambda>i. (of_nat (v ! i) :: rat) / of_nat (sum_list v)) [0..<length v])
      = of_nat (sum_list v) / of_nat (sum_list v)" .
  moreover have "(of_nat (sum_list v) :: rat) \<noteq> 0"
  proof
    assume "(of_nat (sum_list v) :: rat) = 0"
    then have "sum_list v = 0" by (simp only: of_nat_eq_0_iff)
    with assms show False by linarith
  qed
  then have "(of_nat (sum_list v) :: rat) / of_nat (sum_list v) = 1"
    by (rule divide_self)
  ultimately show ?thesis
    by (simp only:)
qed

section \<open>The notebook's numbers\<close>

text \<open>
  The inverse of the notebook's matrix, to compare with what the notebook prints
  (\<^verbatim>\<open>1.01978044e+00 -1.11470783e-02 -9.87135367e-03 1.05228426e-04\<close> in its first row).
\<close>

lemma inv_la_M:
  "inv_la M = Inr
     [[941677939237 / 923412438513, - (3431116921 / 307804146171),
       - (9115330763 / 923412438513), 97169237 / 923412438513],
      [- (3046561663 / 307804146171), 104846782779 / 102601382057,
       28918337 / 307804146171, - (3432461663 / 307804146171)],
      [- (3070109209 / 307804146171), - (416403 / 102601382057),
       313693050791 / 307804146171, - (2783079209 / 307804146171)],
      [84511892 / 923412438513, - (3303836036 / 307804146171),
       - (8638138108 / 923412438513), 941961891892 / 923412438513]]"
  by (simp add: inv_la_def shape_def identity_def unit_row_def gj_step_def pivot_row_def
      eliminate_def Let_def M_def)



text \<open>The matrix of halves has a repeated column: the elimination meets a zero pivot.\<close>

lemma inv_la_halves: "inv_la [[0.5, 0.5], [0.5, 0.5]] = Inl LinAlgError"
  by (simp add: inv_la_def shape_def identity_def unit_row_def gj_step_def pivot_row_def
      eliminate_def Let_def)

text \<open>The calibration data the notebook quotes gives the matrix it writes out.\<close>

lemma label_2: "label 2 j = [if even (j div 2) then CHR ''0'' else CHR ''1'',
    if even j then CHR ''0'' else CHR ''1'']"
  by (simp add: numeral_2_eq_2)

lemma upt_4: "[0..<4] = [0, 1, 2, 3]"
  by (simp add: upt_conv_Cons)

lemma cal_matrix_cal_data: "cal_matrix 2 cal_data = Inr M"
  by (simp add: cal_matrix_def cal_data_def M_def dense_def shot_total_def label_2 upt_4)

lemma shot_total_cal_data: "map (shot_total 2) cal_data = [10000, 10000, 10000, 10000]"
  by (simp add: cal_data_def dense_def shot_total_def label_2 upt_4)




section \<open>Calibration without noise\<close>






section \<open>The claims\<close>


text \<open>
  C2. Where at least \<open>2 ^ n\<close> counts dictionaries are supplied and each has a positive
  shot total, the builder returns a \<open>2 ^ n\<close> by \<open>2 ^ n\<close> matrix whose column \<open>j\<close> is the
  dense vector of dictionary \<open>j\<close> divided by that dictionary's own shot total; every
  column sums to exactly one, and every entry lies between zero and one.
\<close>

theorem cal_matrix_stochastic:
  assumes "2 ^ n \<le> length ds" and "\<forall>d\<in>set ds. 0 < shot_total n d"
  shows "\<exists>m. cal_matrix n ds = Inr m \<and> shape m = Some (2 ^ n, 2 ^ n) \<and>
     (\<forall>j<2 ^ n.
        col m j = map (\<lambda>c. of_nat c / of_nat (shot_total n (ds ! j))) (dense n (ds ! j)) \<and>
        sum_list (col m j) = 1) \<and>
     (\<forall>r\<in>set m. \<forall>x\<in>set r. 0 \<le> x \<and> x \<le> 1)"
proof -
  let ?e = "\<lambda>i j. (of_nat (dense n (ds ! j) ! i) :: rat) / of_nat (shot_total n (ds ! j))"
  let ?m = "map (\<lambda>i. map (\<lambda>j. ?e i j) [0..<2 ^ n]) [0..<2 ^ n]"
  have m: "cal_matrix n ds = Inr ?m"
    using assms by (intro cal_matrix_Inr) auto
  have "?m \<noteq> []" by simp
  moreover have "\<And>r. r \<in> set ?m \<Longrightarrow> length r = 2 ^ n" by auto
  ultimately have sh: "shape ?m = Some (2 ^ n, 2 ^ n)"
    using shape_SomeI [of ?m "2 ^ n"] by simp
  have cols: "col ?m j = map (\<lambda>c. of_nat c / of_nat (shot_total n (ds ! j))) (dense n (ds ! j))
      \<and> sum_list (col ?m j) = 1" if j: "j < 2 ^ n" for j
  proof -
    let ?v = "dense n (ds ! j)"
    have tot: "0 < sum_list ?v"
      using assms j by (simp add: shot_total_def [symmetric])
    have c: "col ?m j = map (\<lambda>i. of_nat (?v ! i) / of_nat (sum_list ?v)) [0..<length ?v]"
      using j by (simp add: col_def length_dense shot_total_def)
    also have "\<dots> = map (\<lambda>c. of_nat c / of_nat (sum_list ?v)) (map (\<lambda>i. ?v ! i) [0..<length ?v])"
      by (simp add: comp_def)
    finally have "col ?m j = map (\<lambda>c. of_nat c / of_nat (sum_list ?v)) ?v"
      by (simp only: map_nth)
    moreover have "sum_list (col ?m j) = 1"
      unfolding c using tot by (rule column_sum)
    ultimately show ?thesis
      by (simp add: shot_total_def)
  qed
  have entries: "0 \<le> x \<and> x \<le> 1" if "r \<in> set ?m" and "x \<in> set r" for r x
  proof -
    from that obtain i j where i: "i < 2 ^ n" and j: "j < 2 ^ n" and x: "x = ?e i j"
      by auto
    have "dense n (ds ! j) ! i \<le> shot_total n (ds ! j)"
      using i by (rule dense_le_total)
    moreover have "0 < shot_total n (ds ! j)"
      using assms j by simp
    ultimately show ?thesis
      unfolding x by simp
  qed
  from m sh cols entries show ?thesis
    by blast
qed

text \<open>
  The data the notebook quotes are such an input, and the matrix is the notebook's
  \<open>M\<close>.
\<close>

theorem cal_matrix_stochastic_witness:
  "\<exists>m. cal_matrix 2 cal_data = Inr m \<and> m = M \<and> shape m = Some (4, 4) \<and>
     sum_list (col m 0) = 1 \<and> sum_list (col m 1) = 1 \<and>
     sum_list (col m 2) = 1 \<and> sum_list (col m 3) = 1 \<and>
     list_all (list_all (\<lambda>x. 0 \<le> x \<and> x \<le> 1)) m"
proof -
  have l: "2 ^ 2 \<le> length cal_data"
    by (simp add: cal_data_def)
  have t: "\<forall>d\<in>set cal_data. 0 < shot_total 2 d"
    using shot_total_cal_data by (simp add: cal_data_def)
  from cal_matrix_stochastic [OF l t] obtain m where m: "cal_matrix 2 cal_data = Inr m"
    and sh: "shape m = Some (2 ^ 2, 2 ^ 2)"
    and cols: "\<forall>j<2 ^ 2. col m j
          = map (\<lambda>c. of_nat c / of_nat (shot_total 2 (cal_data ! j))) (dense 2 (cal_data ! j)) \<and>
        sum_list (col m j) = 1"
    and entries: "\<forall>r\<in>set m. \<forall>x\<in>set r. 0 \<le> x \<and> x \<le> 1"
    by blast
  have eq: "m = M"
    using m cal_matrix_cal_data by simp
  have sh4: "shape m = Some (4, 4)"
    using sh by simp
  have unit: "list_all (list_all (\<lambda>x. 0 \<le> x \<and> x \<le> 1)) m"
    using entries by (simp add: list_all_iff)
  have c: "sum_list (col m j) = 1" if "j < 4" for j
  proof -
    have "j < 2 ^ 2" using that by simp
    with cols show ?thesis by blast
  qed
  show ?thesis
  proof (intro exI conjI)
    show "cal_matrix 2 cal_data = Inr m" by (rule m)
    show "m = M" by (rule eq)
    show "shape m = Some (4, 4)" by (rule sh4)
    show "sum_list (col m 0) = 1" by (rule c) simp
    show "sum_list (col m 1) = 1" by (rule c) simp
    show "sum_list (col m 2) = 1" by (rule c) simp
    show "sum_list (col m 3) = 1" by (rule c) simp
    show "list_all (list_all (\<lambda>x. 0 \<le> x \<and> x \<le> 1)) m" by (rule unit)
  qed
qed






text \<open>
  C7, as the notebook has it. \<^verbatim>\<open>np.dot(Minv, Cnoisy)\<close> checks shapes and nothing else.
  Once the matrix has an inverse, a vector whose number of rows differs from the
  matrix's is refused with \<^verbatim>\<open>ValueError\<close> and no vector is returned; a vector with
  as many rows is multiplied and returned, whatever the signs of its entries.
\<close>

theorem mitigate_checks_shape_only:
  assumes "inv_la m = Inr mi" and "shape c = Some (k, w)"
  shows "(k \<noteq> length m \<longrightarrow> mitigate m c = Inl ValueError) \<and>
         (k = length m \<longrightarrow> (\<exists>v. mitigate m c = Inr v \<and> shape v = Some (k, w)))"
proof -
  have sh: "shape mi = Some (length m, length m)"
    using assms(1) by (rule inv_la_shape)
  have mit: "mitigate m c = dot mi c"
    by (simp add: mitigate_def assms(1))
  show ?thesis
  proof (intro conjI impI)
    assume "k \<noteq> length m"
    then have "length m \<noteq> k" by simp
    with sh assms(2) show "mitigate m c = Inl ValueError"
      unfolding mit by (rule dot_mismatch)
  next
    assume k: "k = length m"
    let ?v = "map (\<lambda>r. map (\<lambda>j. inner r (col c j)) [0..<w]) mi"
    have "dot mi c = Inr ?v"
      using sh assms(2) unfolding k by (rule dot_match)
    moreover have "shape ?v = Some (length ?v, w)"
      using shape_SomeD(2) [OF sh] by (intro shape_SomeI) auto
    moreover have "length ?v = k"
      using shape_SomeD(1) [OF sh] k by simp
    ultimately show "\<exists>v. mitigate m c = Inr v \<and> shape v = Some (k, w)"
      unfolding mit by simp
  qed
qed

theorem mitigate_checks_shape_only_witness:
  "mitigate M [[- 1], [0], [0]] = Inl ValueError \<and>
   (\<exists>v. mitigate M [[- 1], [0], [0], [0]] = Inr v \<and> shape v = Some (4, 1))"
proof -
  obtain mi where mi: "inv_la M = Inr mi"
    using inv_la_M by blast
  have s3: "shape [[- 1], [0], [0 :: rat]] = Some (3, 1)"
    and s4: "shape [[- 1], [0], [0], [0 :: rat]] = Some (4, 1)"
    by (simp_all add: shape_def)
  have l: "length M = 4" by (simp add: M_def)
  from mitigate_checks_shape_only [OF mi s3] mitigate_checks_shape_only [OF mi s4] l
  show ?thesis by simp
qed

text \<open>
  C7, as it is stated, asks for an error on a negative entry. The notebook's
  correction of the vector \<open>[-1, 0, 0, 0]\<close> returns a vector: the first column of the
  inverse, negated.
\<close>

theorem negative_counts_accepted:
  "mitigate M [[- 1], [0], [0], [0]] =
     Inr [[- (941677939237 / 923412438513)], [3046561663 / 307804146171],
          [3070109209 / 307804146171], [- (84511892 / 923412438513)]]"
  by (simp add: mitigate_def inv_la_M dot_def shape_def col_def inner_def)

text \<open>
  C8. The builder fails with \<open>InvalidInput\<close>, and returns no matrix, whenever fewer than
  \<open>2 ^ n\<close> counts dictionaries are supplied or one of those supplied has shot total
  zero.
\<close>

theorem cal_matrix_rejects:
  assumes "length ds < 2 ^ n \<or> (\<exists>d\<in>set ds. shot_total n d = 0)"
  shows "cal_matrix n ds = Inl InvalidInput \<and> (\<forall>m. cal_matrix n ds \<noteq> Inr m)"
  using assms by (auto simp: cal_matrix_def list_ex_iff)

text \<open>
  Three of the four calibration runs of two qubits; and two runs of one qubit, the
  second with no shot at all.
\<close>

theorem cal_matrix_rejects_witness:
  "cal_matrix 2 (take 3 cal_data) = Inl InvalidInput \<and>
   cal_matrix 1 [[''0'' \<mapsto> 10000], Map.empty] = Inl InvalidInput"
proof -
  have "length (take 3 cal_data) < 2 ^ 2 \<or> (\<exists>d\<in>set (take 3 cal_data). shot_total 2 d = 0)"
    by (simp add: cal_data_def)
  moreover have "shot_total 1 Map.empty = 0"
    by (simp add: shot_total_def dense_def)
  then have "length [[''0'' \<mapsto> 10000], Map.empty] < 2 ^ 1
      \<or> (\<exists>d\<in>set [[''0'' \<mapsto> 10000], Map.empty]. shot_total 1 d = 0)"
    by simp
  ultimately show ?thesis
    using cal_matrix_rejects [of "take 3 cal_data" 2]
      cal_matrix_rejects [of "[[''0'' \<mapsto> 10000], Map.empty]" 1]
    by blast
qed

text \<open>
  C9. The inverse of the notebook's \<open>M\<close> has negative entries off its diagonal: nine
  of the twelve. So the correction of the non-negative vector \<open>[0, k, 0, 0]\<close>, for any
  positive \<open>k\<close>, has a negative first entry, and \<^verbatim>\<open>np.dot(Minv, Cnoisy)\<close> returns it
  as it is: nothing in the notebook's code rounds or clamps.
\<close>

theorem inverse_has_negative_entries:
  assumes "0 < k"
  shows "\<exists>mi v. Minv = Inr mi \<and>
     mi ! 0 ! 1 < 0 \<and> mi ! 0 ! 2 < 0 \<and> mi ! 1 ! 0 < 0 \<and> mi ! 1 ! 3 < 0 \<and> mi ! 2 ! 0 < 0 \<and>
     mi ! 2 ! 1 < 0 \<and> mi ! 2 ! 3 < 0 \<and> mi ! 3 ! 1 < 0 \<and> mi ! 3 ! 2 < 0 \<and>
     dot mi [[0], [k], [0], [0]] = Inr v \<and> mitigate M [[0], [k], [0], [0]] = Inr v \<and>
     v ! 0 ! 0 < 0"
  using assms
  by (simp add: Minv_def mitigate_def inv_la_M dot_def shape_def col_def inner_def)

theorem inverse_has_negative_entries_witness:
  "\<exists>v. mitigate M [[0], [10000], [0], [0]] = Inr v \<and> v ! 0 ! 0 < 0"
proof -
  have "(0 :: rat) < 10000" by simp
  from inverse_has_negative_entries [OF this] show ?thesis by blast
qed

lemmas cells = notebook_def builtins_def bell_circuit_def run_circuit_def fit_def
  set_noise_def plot_cell_def

text \<open>
  C10. Run in order, the cells of the notebook stop at cell 36, the one that plots,
  with \<^verbatim>\<open>NameError\<close> on \<^verbatim>\<open>noisy_counts\<close>: no statement of the notebook binds that
  name, and it is not a built-in. The call that raises is the only statement that
  reads \<^verbatim>\<open>mitigated_counts\<close>, so the mitigated counts are never plotted. (Every
  earlier statement finds its names; what the libraries do when called is not
  modelled.)
\<close>

theorem plot_raises_NameError:
  "run_cells builtins notebook = Inl (36, NameError ''noisy_counts'') \<and>
   ''noisy_counts'' \<notin> set (builtins @ bound_names) \<and>
   filter (\<lambda>s. ''mitigated_counts'' \<in> set (reads s)) (concat (map snd notebook))
     = [Stmt [''plot_histogram'', ''noisy_counts'', ''mitigated_counts''] []]"
proof (intro conjI)
  show "run_cells builtins notebook = Inl (36, NameError ''noisy_counts'')"
    by (simp add: cells)
  show "''noisy_counts'' \<notin> set (builtins @ bound_names)"
    by (simp add: bound_names_def cells)
  show "filter (\<lambda>s. ''mitigated_counts'' \<in> set (reads s)) (concat (map snd notebook))
     = [Stmt [''plot_histogram'', ''noisy_counts'', ''mitigated_counts''] []]"
    by (simp add: cells)
qed

end
